theory Spec2Isabelle
  imports Complex_Main
begin

section \<open>Rank-biased overlap of two ranked lists\<close>

text \<open>
  A shallow embedding of the class \<open>RankingSimilarity\<close> of \<open>rbo.py\<close>: its constructor, the
  fixed-depth measure \<open>rbo\<close> and the extrapolated measure \<open>rbo_ext\<close>.

  Python floats are read as real numbers in \<open>rbo\<close> and \<open>rbo_ext\<close>, whose statements are
  therefore ones of exact arithmetic. The loop of \<open>rbo\<close> is given a second time with every
  floating-point operation rounded by a function \<open>rnd\<close>: with the identity it is the exact
  reading, with \<open>binary64\<close> it is the arithmetic of the interpreter.

  List elements are values of an arbitrary type with equality, which is what hashing and
  \<open>==\<close> give for the strings and numbers the lists hold. The calls of
  \<open>ProgressPrintOut.printout\<close> only print, and are left out.
\<close>

subsection \<open>Errors and the object\<close>

datatype error = AssertionError | IndexError | UnboundLocalError

text \<open>
  The source defines no exception class of its own. What the specification calls
  \<open>InvalidParameterError\<close> is the failure of a check of a parameter, and the only such
  check in the source is the \<open>assert\<close> on \<open>p\<close> in \<open>rbo\<close>.
\<close>

definition InvalidParameterError :: "error \<Rightarrow> bool" where
  "InvalidParameterError e \<longleftrightarrow> e = AssertionError"

record 'a RankingSimilarity =
  S :: "'a list"
  T :: "'a list"
  N_S :: nat
  N_T :: nat

text \<open>
  \<open>__init__\<close>: both lists must be free of duplicates (\<open>len(S) == len(set(S))\<close>), checked
  for \<open>S\<close> first.
\<close>

definition RankingSimilarity_init :: "'a list \<Rightarrow> 'a list \<Rightarrow> error + 'a RankingSimilarity" where
  "RankingSimilarity_init s t =
     (if length s = card (set s) then
        (if length t = card (set t) then
           Inr \<lparr>S = s, T = t, N_S = length s, N_T = length t\<rparr>
         else Inl AssertionError)
      else Inl AssertionError)"

subsection \<open>The fixed-depth measure\<close>

text \<open>
  The arrays \<open>A\<close> and \<open>AO\<close> and the two running dictionaries, whose values are all \<open>True\<close>
  and which are therefore kept as their key sets.
\<close>

record 'a rbo_state =
  A :: "real list"
  AO :: "real list"
  S_running :: "'a set"
  T_running :: "'a set"

text \<open>\<open>k = min(self.N_S, self.N_T, k)\<close>, where \<open>None\<close> stands for infinity.\<close>

definition rbo_depth :: "'a RankingSimilarity \<Rightarrow> int option \<Rightarrow> int" where
  "rbo_depth self k =
     (case k of
        None \<Rightarrow> min (int (N_S self)) (int (N_T self))
      | Some k0 \<Rightarrow> min (min (int (N_S self)) (int (N_T self))) k0)"

text \<open>The weights, with the assertion on \<open>p\<close> of the branch \<open>p != 1.0\<close>.\<close>

definition rbo_weights :: "real \<Rightarrow> nat \<Rightarrow> error + real list" where
  "rbo_weights p n =
     (if p = 1 then Inr (replicate n 1)
      else if 0 < p \<and> p < 1 then Inr (map (\<lambda>d. 1 * (1 - p) * p ^ d) [0..<n])
      else Inl AssertionError)"

text \<open>
  One pass of the loop body at depth \<open>d\<close>. The loop only runs for \<open>1 \<le> d < k\<close> with
  \<open>k \<le> N_S\<close> and \<open>k \<le> N_T\<close>, so on an object built by the constructor every index read
  here is in range.
\<close>

definition rbo_step :: "'a RankingSimilarity \<Rightarrow> real \<Rightarrow> real list \<Rightarrow> nat \<Rightarrow> 'a rbo_state \<Rightarrow> 'a rbo_state" where
  "rbo_step self p weights d st =
     (let tmp = (0::nat);
          tmp = (if S self ! d \<in> T_running st then tmp + 1 else tmp);
          tmp = (if T self ! d \<in> S_running st then tmp + 1 else tmp);
          tmp = (if S self ! d = T self ! d then tmp + 1 else tmp);
          A' = (A st)[d := 1 * (A st ! (d - 1) * real d + real tmp) / real (d + 1)];
          AO' = (if p = 1
                 then (AO st)[d := (AO st ! (d - 1) * real d + A' ! d) / real (d + 1)]
                 else (AO st)[d := AO st ! (d - 1) + weights ! d * A' ! d])
      in \<lparr>A = A', AO = AO',
          S_running = insert (S self ! d) (S_running st),
          T_running = insert (T self ! d) (T_running st)\<rparr>)"

text \<open>
  Everything up to the end of the loop. The reads \<open>self.S[0]\<close> and \<open>self.T[0]\<close> raise on
  an empty list, and the write \<open>A[0] = ...\<close> raises when the depth is not positive, the
  array then being empty (\<open>range(k)\<close> is empty for \<open>k \<le> 0\<close>).
\<close>

definition rbo_arrays :: "'a RankingSimilarity \<Rightarrow> int option \<Rightarrow> real \<Rightarrow> error + 'a rbo_state" where
  "rbo_arrays self k p =
     (let k' = nat (rbo_depth self k);
          A0 = replicate k' 0;
          AO0 = replicate k' 0
      in case rbo_weights p k' of
           Inl e \<Rightarrow> Inl e
         | Inr weights \<Rightarrow>
            (case S self of
               [] \<Rightarrow> Inl IndexError
             | s0 # _ \<Rightarrow>
                (case T self of
                   [] \<Rightarrow> Inl IndexError
                 | t0 # _ \<Rightarrow>
                    if k' = 0 then Inl IndexError
                    else Inr (fold (rbo_step self p weights) [1..<k']
                           \<lparr>A = A0[0 := if s0 = t0 then 1 else 0],
                            AO = AO0[0 := if s0 = t0 then weights ! 0 else 0],
                            S_running = {s0}, T_running = {t0}\<rparr>))))"

definition rbo :: "'a RankingSimilarity \<Rightarrow> int option \<Rightarrow> real \<Rightarrow> bool \<Rightarrow> error + real" where
  "rbo self k p ext =
     (case rbo_arrays self k p of
        Inl e \<Rightarrow> Inl e
      | Inr st \<Rightarrow>
          Inr (if ext \<and> p < 1
               then last (AO st) + last (A st) * p ^ nat (rbo_depth self k)
               else last (AO st)))"

subsection \<open>The extrapolated measure\<close>

text \<open>
  The arrays \<open>X\<close>, \<open>A\<close> and \<open>rbo\<close> of \<open>rbo_ext\<close> (the last two renamed, as \<open>A\<close> and \<open>rbo\<close>
  are taken), the running sets of the short and of the long list, and the two scalars.
  \<open>ext_term\<close> is assigned in the loop body only: \<open>None\<close> is the unbound name.
\<close>

record 'a rbo_ext_state =
  X :: "int list"
  A_ext :: "real list"
  rbo_arr :: "real list"
  S_run :: "'a set"
  L_running :: "'a set"
  disjoint :: real
  ext_term :: "real option"

text \<open>
  The loop body at depth \<open>d\<close>, for the short list \<open>S'\<close> of length \<open>s\<close> and the long list
  \<open>L'\<close>. Here the new items enter the running sets before the membership tests.
\<close>

definition rbo_ext_step :: "'a list \<Rightarrow> 'a list \<Rightarrow> nat \<Rightarrow> real \<Rightarrow> nat \<Rightarrow> 'a rbo_ext_state \<Rightarrow> 'a rbo_ext_state" where
  "rbo_ext_step S' L' s p d st =
     (if d < s then
        (let Sr = insert (S' ! d) (S_run st);
             Lr = insert (L' ! d) (L_running st);
             overlap_incr =
               (if S' ! d = L' ! d then 1
                else (if S' ! d \<in> Lr then 1 else 0) + (if L' ! d \<in> Sr then 1 else 0));
             X' = (X st)[d := X st ! (d - 1) + overlap_incr];
             A' = (A_ext st)[d := 2 * real_of_int (X' ! d) / real (card Sr + card Lr)];
             rbo' = (rbo_arr st)[d := rbo_arr st ! (d - 1) + 1 * (1 - p) * p ^ d * A' ! d]
         in \<lparr>X = X', A_ext = A', rbo_arr = rbo', S_run = Sr, L_running = Lr,
             disjoint = disjoint st,
             ext_term = Some (1 * A' ! d * p ^ (d + 1))\<rparr>)
      else
        (let Lr = insert (L' ! d) (L_running st);
             overlap_incr = (if L' ! d \<in> S_run st then 1 else 0);
             X' = (X st)[d := X st ! (d - 1) + overlap_incr];
             A' = (A_ext st)[d := 1 * real_of_int (X' ! d) / real (d + 1)];
             rbo' = (rbo_arr st)[d := rbo_arr st ! (d - 1) + 1 * (1 - p) * p ^ d * A' ! d];
             X_s = X' ! (s - 1)
         in \<lparr>X = X', A_ext = A', rbo_arr = rbo', S_run = S_run st, L_running = Lr,
             disjoint = disjoint st
               + 1 * (1 - p) * p ^ d
                 * (real_of_int (X_s * (int d + 1 - int s)) / real (d + 1) / real s),
             ext_term =
               Some (1 * (real_of_int (X' ! d - X_s) / real (d + 1)
                          + real_of_int (X' ! (s - 1)) / real s) * p ^ (d + 1))\<rparr>))"

text \<open>
  Everything up to the end of the loop: the choice of the long and the short list, the
  first item (\<open>S[0]\<close> raises on an empty short list, read before \<open>L[0]\<close>), and the loop
  over \<open>range(1, l)\<close>.
\<close>

definition rbo_ext_arrays :: "'a RankingSimilarity \<Rightarrow> real \<Rightarrow> error + 'a rbo_ext_state" where
  "rbo_ext_arrays self p =
     (let (L', S') = (if length (S self) > length (T self) then (S self, T self)
                      else (T self, S self));
          s = length S';
          l = length L';
          X0 = replicate l 0;
          A0 = replicate l 0;
          rbo0 = replicate l 0
      in case S' of
           [] \<Rightarrow> Inl IndexError
         | s0 # _ \<Rightarrow>
            (case L' of
               [] \<Rightarrow> Inl IndexError
             | l0 # _ \<Rightarrow>
                (let X1 = X0[0 := if s0 = l0 then 1 else 0];
                     A1 = A0[0 := real_of_int (X1 ! 0)];
                     rbo1 = rbo0[0 := 1 * (1 - p) * A1 ! 0]
                 in Inr (fold (rbo_ext_step S' L' s p) [1..<l]
                      \<lparr>X = X1, A_ext = A1, rbo_arr = rbo1, S_run = {s0}, L_running = {l0},
                       disjoint = 0, ext_term = None\<rparr>))))"

text \<open>The returned sum reads \<open>ext_term\<close>, which is unbound when the loop body never ran.\<close>

definition rbo_ext :: "'a RankingSimilarity \<Rightarrow> real \<Rightarrow> error + real" where
  "rbo_ext self p =
     (case rbo_ext_arrays self p of
        Inl e \<Rightarrow> Inl e
      | Inr st \<Rightarrow>
         (case ext_term st of
            None \<Rightarrow> Inl UnboundLocalError
          | Some e \<Rightarrow> Inr (last (rbo_arr st) + disjoint st + e)))"

subsection \<open>The fixed-depth loop in floating point\<close>




text \<open>
  The weights, the loop body and the loop of \<open>rbo\<close> once more, each result of a float
  operation passing through \<open>rnd\<close>. Integers (\<open>d\<close>, \<open>d + 1\<close>, \<open>tmp\<close>, the entries 0 and 1)
  convert exactly, and the factor \<open>1.0\<close> changes nothing. \<open>p ** d\<close> is taken as the rounded
  power.
\<close>

definition rbo_weights_rnd :: "(real \<Rightarrow> real) \<Rightarrow> real \<Rightarrow> nat \<Rightarrow> error + real list" where
  "rbo_weights_rnd rnd p n =
     (if p = 1 then Inr (replicate n 1)
      else if 0 < p \<and> p < 1 then Inr (map (\<lambda>d. rnd (rnd (1 - p) * rnd (p ^ d))) [0..<n])
      else Inl AssertionError)"

definition rbo_step_rnd :: "(real \<Rightarrow> real) \<Rightarrow> 'a RankingSimilarity \<Rightarrow> real \<Rightarrow> real list \<Rightarrow> nat \<Rightarrow> 'a rbo_state \<Rightarrow> 'a rbo_state" where
  "rbo_step_rnd rnd self p weights d st =
     (let tmp = (0::nat);
          tmp = (if S self ! d \<in> T_running st then tmp + 1 else tmp);
          tmp = (if T self ! d \<in> S_running st then tmp + 1 else tmp);
          tmp = (if S self ! d = T self ! d then tmp + 1 else tmp);
          A' = (A st)[d := rnd (rnd (rnd (A st ! (d - 1) * real d) + real tmp) / real (d + 1))];
          AO' = (if p = 1
                 then (AO st)[d := rnd (rnd (rnd (AO st ! (d - 1) * real d) + A' ! d) / real (d + 1))]
                 else (AO st)[d := rnd (AO st ! (d - 1) + rnd (weights ! d * A' ! d))])
      in \<lparr>A = A', AO = AO',
          S_running = insert (S self ! d) (S_running st),
          T_running = insert (T self ! d) (T_running st)\<rparr>)"

definition rbo_arrays_rnd :: "(real \<Rightarrow> real) \<Rightarrow> 'a RankingSimilarity \<Rightarrow> int option \<Rightarrow> real \<Rightarrow> error + 'a rbo_state" where
  "rbo_arrays_rnd rnd self k p =
     (let k' = nat (rbo_depth self k);
          A0 = replicate k' 0;
          AO0 = replicate k' 0
      in case rbo_weights_rnd rnd p k' of
           Inl e \<Rightarrow> Inl e
         | Inr weights \<Rightarrow>
            (case S self of
               [] \<Rightarrow> Inl IndexError
             | s0 # _ \<Rightarrow>
                (case T self of
                   [] \<Rightarrow> Inl IndexError
                 | t0 # _ \<Rightarrow>
                    if k' = 0 then Inl IndexError
                    else Inr (fold (rbo_step_rnd rnd self p weights) [1..<k']
                           \<lparr>A = A0[0 := if s0 = t0 then 1 else 0],
                            AO = AO0[0 := if s0 = t0 then weights ! 0 else 0],
                            S_running = {s0}, T_running = {t0}\<rparr>))))"


subsection \<open>Notions used to state the properties\<close>

text \<open>
  The size of the intersection of the two prefixes of length \<open>d + 1\<close>, and its ratio to
  the prefix length: the agreement at depth \<open>d\<close>.
\<close>

definition prefix_overlap :: "'a list \<Rightarrow> 'a list \<Rightarrow> nat \<Rightarrow> nat" where
  "prefix_overlap xs ys d = card (set (take (Suc d) xs) \<inter> set (take (Suc d) ys))"

definition agreement :: "'a list \<Rightarrow> 'a list \<Rightarrow> nat \<Rightarrow> real" where
  "agreement xs ys d = real (prefix_overlap xs ys d) / real (d + 1)"

text \<open>
  The cumulative array in closed form, for a weight list \<open>ws\<close> and agreements \<open>a\<close>, and the
  loop invariant of the fixed-depth measure after the depths below \<open>m\<close>.
\<close>

definition ao_closed :: "real \<Rightarrow> real list \<Rightarrow> (nat \<Rightarrow> real) \<Rightarrow> nat \<Rightarrow> real" where
  "ao_closed p ws a d =
     (if p = 1 then (\<Sum>i\<le>d. a i) / real (d + 1) else (\<Sum>i\<le>d. ws ! i * a i))"

definition rbo_inv :: "'a list \<Rightarrow> 'a list \<Rightarrow> real \<Rightarrow> real list \<Rightarrow> nat \<Rightarrow> nat \<Rightarrow> 'a rbo_state \<Rightarrow> bool" where
  "rbo_inv xs ys p ws n m st \<longleftrightarrow>
     length (A st) = n \<and> length (AO st) = n \<and>
     S_running st = set (take m xs) \<and> T_running st = set (take m ys) \<and>
     (\<forall>d<m. A st ! d = agreement xs ys d) \<and>
     (\<forall>d<m. AO st ! d = ao_closed p ws (agreement xs ys) d)"

text \<open>
  The loop invariant of the extrapolated measure after the depths below \<open>m\<close>, while both
  lists still contribute items.
\<close>

definition rbo_ext_inv :: "'a list \<Rightarrow> 'a list \<Rightarrow> real \<Rightarrow> nat \<Rightarrow> nat \<Rightarrow> 'a rbo_ext_state \<Rightarrow> bool" where
  "rbo_ext_inv xs ys p l m st \<longleftrightarrow>
     length (X st) = l \<and> length (A_ext st) = l \<and> length (rbo_arr st) = l \<and>
     S_run st = set (take m xs) \<and> L_running st = set (take m ys) \<and>
     (\<forall>d<m. X st ! d = int (prefix_overlap xs ys d)) \<and>
     (\<forall>d<m. A_ext st ! d = agreement xs ys d) \<and>
     (\<forall>d<m. rbo_arr st ! d = (\<Sum>i\<le>d. (1 - p) * p ^ i * agreement xs ys i)) \<and>
     disjoint st = 0 \<and>
     ext_term st = (if m = 1 then None else Some (agreement xs ys (m - 1) * p ^ m))"




subsection \<open>Exchanging the two lists\<close>

text \<open>
  The states of the two loops with the roles of the two running sets exchanged; used to
  relate a run on \<open>(S, T)\<close> to the run on \<open>(T, S)\<close>.
\<close>

definition rbo_state_swap :: "'a rbo_state \<Rightarrow> 'a rbo_state" where
  "rbo_state_swap st =
     \<lparr>A = A st, AO = AO st, S_running = T_running st, T_running = S_running st\<rparr>"

definition rbo_ext_state_swap :: "'a rbo_ext_state \<Rightarrow> 'a rbo_ext_state" where
  "rbo_ext_state_swap st = st\<lparr>S_run := L_running st, L_running := S_run st\<rparr>"

section \<open>Properties of the fixed-depth measure\<close>

subsection \<open>Prefix intersections\<close>

lemma card_insert_Int:
  assumes "finite P" "finite Q" "a \<notin> P" "b \<notin> Q"
  shows "card (insert a P \<inter> insert b Q) =
         card (P \<inter> Q) + (if a \<in> Q then 1 else 0) + (if b \<in> P then 1 else 0)
           + (if a = b then 1 else 0)"
proof (cases "a = b")
  case True
  with assms have "insert a P \<inter> insert b Q = insert a (P \<inter> Q)" "a \<notin> P \<inter> Q" by auto
  with assms True show ?thesis by simp
next
  case ne: False
  show ?thesis
  proof (cases "a \<in> Q")
    case aQ: True
    show ?thesis
    proof (cases "b \<in> P")
      case True
      with assms ne aQ have "insert a P \<inter> insert b Q = insert a (insert b (P \<inter> Q))"
        "a \<notin> insert b (P \<inter> Q)" "b \<notin> P \<inter> Q" by auto
      with assms ne aQ True show ?thesis by simp
    next
      case False
      with assms ne aQ have "insert a P \<inter> insert b Q = insert a (P \<inter> Q)" "a \<notin> P \<inter> Q" by auto
      with assms ne aQ False show ?thesis by simp
    qed
  next
    case naQ: False
    show ?thesis
    proof (cases "b \<in> P")
      case True
      with assms ne naQ have "insert a P \<inter> insert b Q = insert b (P \<inter> Q)" "b \<notin> P \<inter> Q" by auto
      with assms ne naQ True show ?thesis by simp
    next
      case False
      with assms ne naQ have "insert a P \<inter> insert b Q = P \<inter> Q" by auto
      with assms ne naQ False show ?thesis by simp
    qed
  qed
qed

lemma nth_notin_take:
  assumes "distinct xs" "m < length xs"
  shows "xs ! m \<notin> set (take m xs)"
proof -
  from assms have "distinct (take m xs @ [xs ! m])"
    by (metis distinct_take take_Suc_conv_app_nth)
  then show ?thesis by simp
qed

lemma prefix_overlap_Suc:
  assumes "distinct xs" "distinct ys" "Suc d < length xs" "Suc d < length ys"
  shows "prefix_overlap xs ys (Suc d) =
         prefix_overlap xs ys d
           + (if xs ! Suc d \<in> set (take (Suc d) ys) then 1 else 0)
           + (if ys ! Suc d \<in> set (take (Suc d) xs) then 1 else 0)
           + (if xs ! Suc d = ys ! Suc d then 1 else 0)"
proof -
  have tx: "set (take (Suc (Suc d)) xs) = insert (xs ! Suc d) (set (take (Suc d) xs))"
    by (simp only: take_Suc_conv_app_nth [OF assms(3)] set_append list.set Un_insert_right Un_empty_right)
  have ty: "set (take (Suc (Suc d)) ys) = insert (ys ! Suc d) (set (take (Suc d) ys))"
    by (simp only: take_Suc_conv_app_nth [OF assms(4)] set_append list.set Un_insert_right Un_empty_right)
  show ?thesis
    unfolding prefix_overlap_def tx ty
    by (rule card_insert_Int) (simp_all add: nth_notin_take assms)
qed




subsection \<open>The loop invariant\<close>

lemma rbo_step_A:
  "A (rbo_step self p ws d st) =
     (A st)[d := (A st ! (d - 1) * real d
        + real ((if S self ! d \<in> T_running st then 1 else 0)
              + (if T self ! d \<in> S_running st then 1 else 0)
              + (if S self ! d = T self ! d then 1 else 0))) / real (d + 1)]"
  by (simp add: rbo_step_def Let_def)

lemma rbo_step_AO:
  "AO (rbo_step self p ws d st) =
     (AO st)[d := (if p = 1 then (AO st ! (d - 1) * real d + A (rbo_step self p ws d st) ! d) / real (d + 1)
                   else AO st ! (d - 1) + ws ! d * A (rbo_step self p ws d st) ! d)]"
  by (simp add: rbo_step_def Let_def)

lemma rbo_step_running:
  "S_running (rbo_step self p ws d st) = insert (S self ! d) (S_running st)"
  "T_running (rbo_step self p ws d st) = insert (T self ! d) (T_running st)"
  by (simp_all add: rbo_step_def Let_def)

lemma agreement_Suc:
  assumes "distinct xs" "distinct ys" "Suc j < length xs" "Suc j < length ys"
  shows "(agreement xs ys j * real (Suc j)
          + real ((if xs ! Suc j \<in> set (take (Suc j) ys) then 1 else 0)
                + (if ys ! Suc j \<in> set (take (Suc j) xs) then 1 else 0)
                + (if xs ! Suc j = ys ! Suc j then 1 else 0))) / real (Suc j + 1)
         = agreement xs ys (Suc j)"
proof -
  have h: "agreement xs ys j * real (Suc j) = real (prefix_overlap xs ys j)"
    by (simp add: agreement_def)
  show ?thesis
    by (subst h) (simp only: agreement_def prefix_overlap_Suc [OF assms] of_nat_add add.assoc)
qed

lemma ao_closed_Suc_one:
  "(ao_closed 1 ws a j * real (Suc j) + a (Suc j)) / real (Suc j + 1) = ao_closed 1 ws a (Suc j)"
  by (simp add: ao_closed_def)

lemma ao_closed_Suc_weighted:
  "p \<noteq> 1 \<Longrightarrow> ao_closed p ws a j + ws ! Suc j * a (Suc j) = ao_closed p ws a (Suc j)"
  by (simp add: ao_closed_def)

lemma rbo_step_inv:
  assumes inv: "rbo_inv xs ys p ws n (Suc j) st"
    and self: "S self = xs" "T self = ys"
    and dist: "distinct xs" "distinct ys"
    and len: "Suc j < n" "n \<le> length xs" "n \<le> length ys"
  shows "rbo_inv xs ys p ws n (Suc (Suc j)) (rbo_step self p ws (Suc j) st)"
proof -
  let ?st = "rbo_step self p ws (Suc j) st"
  from inv have lA: "length (A st) = n" and lAO: "length (AO st) = n"
    and Sr: "S_running st = set (take (Suc j) xs)" and Tr: "T_running st = set (take (Suc j) ys)"
    and Aj: "\<And>d. d < Suc j \<Longrightarrow> A st ! d = agreement xs ys d"
    and AOj: "\<And>d. d < Suc j \<Longrightarrow> AO st ! d = ao_closed p ws (agreement xs ys) d"
    by (simp_all add: rbo_inv_def)
  from len have lx: "Suc j < length xs" and ly: "Suc j < length ys" by simp_all
  have Anew: "A (rbo_step self q ws (Suc j) st) ! Suc j = agreement xs ys (Suc j)" for q
    using agreement_Suc [OF dist lx ly] len lA
    by (simp add: rbo_step_A self Sr Tr Aj)
  have Aold: "A ?st ! d = agreement xs ys d" if "d < Suc j" for d
    using that by (simp add: rbo_step_A Aj)
  have AOnew: "AO ?st ! Suc j = ao_closed p ws (agreement xs ys) (Suc j)"
  proof (cases "p = 1")
    case True
    then show ?thesis
      using ao_closed_Suc_one [of ws "agreement xs ys" j] len lAO
      by (simp add: rbo_step_AO Anew AOj)
  next
    case False
    then show ?thesis
      using ao_closed_Suc_weighted [of p ws "agreement xs ys" j] len lAO
      by (simp add: rbo_step_AO Anew AOj)
  qed
  have AOold: "AO ?st ! d = ao_closed p ws (agreement xs ys) d" if "d < Suc j" for d
    using that by (simp add: rbo_step_AO AOj)
  have A_all: "\<forall>d<Suc (Suc j). A ?st ! d = agreement xs ys d"
    using Anew Aold by (auto simp: less_Suc_eq)
  have AO_all: "\<forall>d<Suc (Suc j). AO ?st ! d = ao_closed p ws (agreement xs ys) d"
    using AOnew AOold by (auto simp: less_Suc_eq)
  have S': "S_running ?st = set (take (Suc (Suc j)) xs)"
    by (simp only: rbo_step_running self Sr take_Suc_conv_app_nth [OF lx] set_append list.set
        Un_insert_right Un_empty_right)
  have T': "T_running ?st = set (take (Suc (Suc j)) ys)"
    by (simp only: rbo_step_running self Tr take_Suc_conv_app_nth [OF ly] set_append list.set
        Un_insert_right Un_empty_right)
  have "length (A ?st) = n" "length (AO ?st) = n"
    by (simp_all add: rbo_step_A rbo_step_AO lA lAO)
  with A_all AO_all S' T' show ?thesis
    unfolding rbo_inv_def by blast
qed

lemma rbo_fold_inv:
  assumes "rbo_inv xs ys p ws n (Suc 0) st0"
    and "S self = xs" "T self = ys" "distinct xs" "distinct ys"
    and "n \<le> length xs" "n \<le> length ys"
  shows "Suc j \<le> n \<Longrightarrow>
         rbo_inv xs ys p ws n (Suc j) (fold (rbo_step self p ws) [1..<Suc j] st0)"
proof (induction j)
  case 0
  with assms(1) show ?case by simp
next
  case (Suc j)
  then have "rbo_inv xs ys p ws n (Suc j) (fold (rbo_step self p ws) [1..<Suc j] st0)"
    by simp
  then have "rbo_inv xs ys p ws n (Suc (Suc j))
               (rbo_step self p ws (Suc j) (fold (rbo_step self p ws) [1..<Suc j] st0))"
    using Suc.prems assms(2-) by (intro rbo_step_inv) simp_all
  then show ?case by simp
qed


subsection \<open>From the constructor to the closed form\<close>

lemma init_Inr:
  assumes "RankingSimilarity_init xs ys = Inr self"
  shows "S self = xs" "T self = ys" "N_S self = length xs" "N_T self = length ys"
    "distinct xs" "distinct ys"
  using assms
  by (auto simp: RankingSimilarity_init_def card_distinct split: if_splits)

lemma init_distinct:
  "distinct xs \<Longrightarrow> distinct ys \<Longrightarrow>
   RankingSimilarity_init xs ys = Inr \<lparr>S = xs, T = ys, N_S = length xs, N_T = length ys\<rparr>"
  by (simp add: RankingSimilarity_init_def distinct_card)

lemma rbo_depth_le:
  "rbo_depth self k \<le> int (N_S self)" "rbo_depth self k \<le> int (N_T self)"
  by (simp_all add: rbo_depth_def min_def split: option.splits)

lemma agreement_0: "agreement (x # xs) (y # ys) 0 = (if x = y then 1 else 0)"
  by (simp add: agreement_def prefix_overlap_def)

lemma rbo_weights_Inr:
  assumes "p = 1 \<or> (0 < p \<and> p < 1)"
  shows "\<exists>ws. rbo_weights p n = Inr ws \<and> length ws = n \<and>
              (\<forall>i<n. ws ! i = (if p = 1 then 1 else (1 - p) * p ^ i))"
  using assms by (auto simp: rbo_weights_def)

lemma rbo_arrays_inv:
  assumes init: "RankingSimilarity_init xs ys = Inr self"
    and p: "p = 1 \<or> (0 < p \<and> p < 1)"
    and k: "0 < rbo_depth self k"
    and ws: "rbo_weights p (nat (rbo_depth self k)) = Inr ws"
  shows "\<exists>st. rbo_arrays self k p = Inr st \<and>
              rbo_inv xs ys p ws (nat (rbo_depth self k)) (nat (rbo_depth self k)) st"
proof -
  define n where "n = nat (rbo_depth self k)"
  note I = init_Inr [OF init]
  from k have n0: "0 < n" by (simp add: n_def)
  from rbo_depth_le [of self k] have nx: "n \<le> length xs" and ny: "n \<le> length ys"
    by (simp_all add: n_def I)
  from n0 nx ny obtain x xs' y ys' where xs: "xs = x # xs'" and ys: "ys = y # ys'"
    by (cases xs; cases ys) auto
  define st0 :: "'a rbo_state" where "st0 =
     \<lparr>A = (replicate n 0)[0 := if x = y then 1 else 0],
      AO = (replicate n 0)[0 := if x = y then ws ! 0 else 0],
      S_running = {x}, T_running = {y}\<rparr>"
  have arr: "rbo_arrays self k p = Inr (fold (rbo_step self p ws) [1..<n] st0)"
    using n0 ws by (simp add: rbo_arrays_def I xs ys n_def [symmetric] st0_def)
  have "ws ! 0 = 1" if "p = 1"
    using that ws n0 by (auto simp: rbo_weights_def n_def [symmetric])
  then have inv0: "rbo_inv xs ys p ws n (Suc 0) st0"
    using n0 by (auto simp: rbo_inv_def st0_def xs ys agreement_0 ao_closed_def)
  from n0 obtain j where j: "n = Suc j" by (cases n) auto
  have "rbo_inv xs ys p ws n (Suc j) (fold (rbo_step self p ws) [1..<Suc j] st0)"
    using inv0 I nx ny j by (intro rbo_fold_inv) simp_all
  with arr show ?thesis by (simp add: j n_def [symmetric])
qed


lemma rbo_arrays_closed:
  assumes init: "RankingSimilarity_init xs ys = Inr self"
    and p: "p = 1 \<or> (0 < p \<and> p < 1)"
    and k: "0 < rbo_depth self k"
  shows "\<exists>st. rbo_arrays self k p = Inr st \<and>
           length (A st) = nat (rbo_depth self k) \<and>
           length (AO st) = nat (rbo_depth self k) \<and>
           (\<forall>d<nat (rbo_depth self k). A st ! d = agreement xs ys d) \<and>
           (\<forall>d<nat (rbo_depth self k). AO st ! d =
              (if p = 1 then (\<Sum>i\<le>d. agreement xs ys i) / real (d + 1)
               else (\<Sum>i\<le>d. (1 - p) * p ^ i * agreement xs ys i)))"
proof -
  define n where "n = nat (rbo_depth self k)"
  from rbo_weights_Inr [OF p, of n] obtain ws where ws: "rbo_weights p n = Inr ws"
    and wi: "\<And>i. i < n \<Longrightarrow> ws ! i = (if p = 1 then 1 else (1 - p) * p ^ i)"
    by blast
  from rbo_arrays_inv [OF init p k ws [unfolded n_def]] obtain st
    where st: "rbo_arrays self k p = Inr st" and inv: "rbo_inv xs ys p ws n n st"
    by (auto simp: n_def)
  have "AO st ! d = (if p = 1 then (\<Sum>i\<le>d. agreement xs ys i) / real (d + 1)
               else (\<Sum>i\<le>d. (1 - p) * p ^ i * agreement xs ys i))" if d: "d < n" for d
  proof -
    from inv d have "AO st ! d = ao_closed p ws (agreement xs ys) d"
      by (simp add: rbo_inv_def)
    moreover have "(\<Sum>i\<le>d. ws ! i * agreement xs ys i) = (\<Sum>i\<le>d. (1 - p) * p ^ i * agreement xs ys i)"
      if "p \<noteq> 1"
      using that d by (intro sum.cong) (simp_all add: wi)
    ultimately show ?thesis by (simp add: ao_closed_def)
  qed
  with st inv show ?thesis
    unfolding n_def [symmetric] rbo_inv_def by blast
qed

lemma rbo_closed:
  assumes init: "RankingSimilarity_init xs ys = Inr self"
    and p: "p = 1 \<or> (0 < p \<and> p < 1)"
    and k: "0 < rbo_depth self k"
  shows "rbo self k p ext =
     Inr (if p = 1 then (\<Sum>i<nat (rbo_depth self k). agreement xs ys i) / real (nat (rbo_depth self k))
          else (\<Sum>i<nat (rbo_depth self k). (1 - p) * p ^ i * agreement xs ys i)
               + (if ext then agreement xs ys (nat (rbo_depth self k) - 1) * p ^ nat (rbo_depth self k)
                  else 0))"
proof -
  define n where "n = nat (rbo_depth self k)"
  from k obtain j where j: "n = Suc j" by (cases n) (auto simp: n_def)
  from rbo_arrays_closed [OF init p k] obtain st where st: "rbo_arrays self k p = Inr st"
    and lA: "length (A st) = n" and lAO: "length (AO st) = n"
    and Ad: "A st ! j = agreement xs ys j"
    and AOd: "AO st ! j = (if p = 1 then (\<Sum>i\<le>j. agreement xs ys i) / real (j + 1)
               else (\<Sum>i\<le>j. (1 - p) * p ^ i * agreement xs ys i))"
    unfolding n_def [symmetric] using j by auto
  have lastA: "last (A st) = A st ! j" and lastAO: "last (AO st) = AO st ! j"
    using lA lAO j by (simp_all add: last_conv_nth [OF length_greater_0_conv [THEN iffD1]])
  show ?thesis
    using p unfolding rbo_def st n_def [symmetric]
    by (auto simp: lastA lastAO Ad AOd j lessThan_Suc_atMost)
qed

subsection \<open>Special cases of the agreement\<close>


lemma agreement_disjoint:
  assumes "set xs \<inter> set ys = {}"
  shows "agreement xs ys d = 0"
proof -
  have "set (take (Suc d) xs) \<inter> set (take (Suc d) ys) \<subseteq> set xs \<inter> set ys"
    using set_take_subset [of "Suc d" xs] set_take_subset [of "Suc d" ys] by blast
  with assms have "set (take (Suc d) xs) \<inter> set (take (Suc d) ys) = {}" by simp
  then show ?thesis by (simp add: agreement_def prefix_overlap_def)
qed

lemma agreement_same:
  assumes "distinct xs" "d < length xs"
  shows "agreement xs xs d = 1"
proof -
  have "card (set (take (Suc d) xs)) = length (take (Suc d) xs)"
    using assms(1) by (intro distinct_card distinct_take)
  also have "\<dots> = Suc d" using assms(2) by simp
  finally show ?thesis by (simp add: agreement_def prefix_overlap_def)
qed

section \<open>Exchanging the arguments\<close>

lemma rbo_step_swap:
  assumes "S b = T a" "T b = S a"
  shows "rbo_step b p ws d (rbo_state_swap st) = rbo_state_swap (rbo_step a p ws d st)"
  by (simp add: rbo_step_def rbo_state_swap_def Let_def assms eq_commute [of "S a ! d" "T a ! d"])

lemma rbo_fold_swap:
  assumes "S b = T a" "T b = S a"
  shows "fold (rbo_step b p ws) ds (rbo_state_swap st) = rbo_state_swap (fold (rbo_step a p ws) ds st)"
  by (induction ds arbitrary: st) (simp_all add: rbo_step_swap [OF assms])

lemma rbo_depth_swap:
  assumes "N_S b = N_T a" "N_T b = N_S a"
  shows "rbo_depth b k = rbo_depth a k"
  by (simp add: rbo_depth_def assms min.commute split: option.splits)

lemma rbo_arrays_swap:
  assumes "S b = T a" "T b = S a" "N_S b = N_T a" "N_T b = N_S a"
  shows "rbo_arrays b k p = map_sum id rbo_state_swap (rbo_arrays a k p)"
proof (cases "rbo_weights p (nat (rbo_depth a k))")
  case (Inl e)
  then show ?thesis
    by (simp add: rbo_arrays_def rbo_depth_swap [OF assms(3,4)])
next
  case (Inr ws)
  show ?thesis
  proof (cases "S a")
    case Nil
    with assms(2) have "T b = []" by simp
    with Nil Inr show ?thesis
      by (simp add: rbo_arrays_def rbo_depth_swap [OF assms(3,4)] Let_def split: list.splits)
  next
    case sa: (Cons s0 ss)
    show ?thesis
    proof (cases "T a")
      case Nil
      with assms(1) have "S b = []" by simp
      with Nil Inr sa show ?thesis
        by (simp add: rbo_arrays_def rbo_depth_swap [OF assms(3,4)] Let_def)
    next
      case ta: (Cons t0 ts)
      have st0: "\<lparr>A = xs, AO = ys, S_running = {t0}, T_running = {s0}\<rparr>
          = rbo_state_swap \<lparr>A = xs, AO = ys, S_running = {s0}, T_running = {t0}\<rparr>" for xs ys
        by (simp add: rbo_state_swap_def)
      from sa ta assms(1,2) have sb: "S b = t0 # ts" and tb: "T b = s0 # ss" by simp_all
      show ?thesis
        using Inr sa ta sb tb
        by (simp add: rbo_arrays_def rbo_depth_swap [OF assms(3,4)] st0 Let_def
            rbo_fold_swap [OF assms(1,2)] eq_commute [of t0 s0])
    qed
  qed
qed

lemma rbo_swap:
  assumes "S b = T a" "T b = S a" "N_S b = N_T a" "N_T b = N_S a"
  shows "rbo b k p ext = rbo a k p ext"
  unfolding rbo_def rbo_arrays_swap [OF assms] rbo_depth_swap [OF assms(3,4)]
  by (cases "rbo_arrays a k p") (simp_all add: rbo_state_swap_def)

lemma rbo_ext_step_swap:
  assumes "d < s"
  shows "rbo_ext_step ys xs s p d (rbo_ext_state_swap st)
         = rbo_ext_state_swap (rbo_ext_step xs ys s p d st)"
proof (cases "xs ! d = ys ! d")
  case True
  with assms show ?thesis
    by (simp add: rbo_ext_step_def rbo_ext_state_swap_def Let_def add.commute)
next
  case False
  then have "ys ! d \<noteq> xs ! d" by simp
  with False assms show ?thesis
    by (simp add: rbo_ext_step_def rbo_ext_state_swap_def Let_def add.commute)
qed

lemma rbo_ext_fold_swap:
  assumes "\<And>d. d \<in> set ds \<Longrightarrow> d < s"
  shows "fold (rbo_ext_step ys xs s p) ds (rbo_ext_state_swap st)
         = rbo_ext_state_swap (fold (rbo_ext_step xs ys s p) ds st)"
  using assms by (induction ds arbitrary: st) (simp_all add: rbo_ext_step_swap)

lemma rbo_ext_arrays_swap_neq:
  assumes "S b = T a" "T b = S a" "length (S a) \<noteq> length (T a)"
  shows "rbo_ext_arrays b p = rbo_ext_arrays a p"
  using assms(3) by (auto simp: rbo_ext_arrays_def assms(1,2))

lemma rbo_ext_arrays_swap_eq:
  assumes "S b = T a" "T b = S a" "length (S a) = length (T a)"
  shows "rbo_ext_arrays b p = map_sum id rbo_ext_state_swap (rbo_ext_arrays a p)"
proof (cases "S a")
  case Nil
  with assms show ?thesis by (simp add: rbo_ext_arrays_def)
next
  case sa: (Cons s0 ss)
  with assms(3) obtain t0 ts where ta: "T a = t0 # ts" by (cases "T a") auto
  from sa ta assms have sb: "S b = t0 # ts" and tb: "T b = s0 # ss" by simp_all
  from assms(3) sa ta have len: "length ts = length ss" by simp
  have st0: "\<lparr>X = xa, A_ext = aa, rbo_arr = ra, S_run = {t0}, L_running = {s0},
              disjoint = 0, ext_term = None\<rparr>
      = rbo_ext_state_swap \<lparr>X = xa, A_ext = aa, rbo_arr = ra, S_run = {s0}, L_running = {t0},
              disjoint = 0, ext_term = None\<rparr>" for xa aa ra
    by (simp add: rbo_ext_state_swap_def)
  have fold_sw: "fold (rbo_ext_step (t0 # ts) (s0 # ss) (Suc (length ss)) p) [1..<Suc (length ss)]
                   (rbo_ext_state_swap st)
      = rbo_ext_state_swap
          (fold (rbo_ext_step (s0 # ss) (t0 # ts) (Suc (length ss)) p) [1..<Suc (length ss)] st)" for st
    by (rule rbo_ext_fold_swap) auto
  show ?thesis
    using fold_sw
    by (simp add: rbo_ext_arrays_def sa ta sb tb len st0 Let_def eq_commute [of t0 s0])
qed

lemma rbo_ext_swap:
  assumes "S b = T a" "T b = S a"
  shows "rbo_ext b p = rbo_ext a p"
proof (cases "length (S a) = length (T a)")
  case True
  show ?thesis
    unfolding rbo_ext_def rbo_ext_arrays_swap_eq [OF assms True]
    by (cases "rbo_ext_arrays a p") (auto simp: rbo_ext_state_swap_def split: option.splits)
next
  case False
  show ?thesis
    unfolding rbo_ext_def rbo_ext_arrays_swap_neq [OF assms False] ..
qed

section \<open>The extrapolated measure on lists of equal length\<close>

lemma rbo_ext_step_lt:
  assumes "d < s"
  shows "X (rbo_ext_step xs ys s p d st) =
           (X st)[d := X st ! (d - 1)
              + (if xs ! d = ys ! d then 1
                 else (if xs ! d \<in> insert (ys ! d) (L_running st) then 1 else 0)
                    + (if ys ! d \<in> insert (xs ! d) (S_run st) then 1 else 0))]"
    and "A_ext (rbo_ext_step xs ys s p d st) =
           (A_ext st)[d := 2 * real_of_int (X (rbo_ext_step xs ys s p d st) ! d)
              / real (card (insert (xs ! d) (S_run st)) + card (insert (ys ! d) (L_running st)))]"
    and "rbo_arr (rbo_ext_step xs ys s p d st) =
           (rbo_arr st)[d := rbo_arr st ! (d - 1)
              + (1 - p) * p ^ d * A_ext (rbo_ext_step xs ys s p d st) ! d]"
    and "S_run (rbo_ext_step xs ys s p d st) = insert (xs ! d) (S_run st)"
    and "L_running (rbo_ext_step xs ys s p d st) = insert (ys ! d) (L_running st)"
    and "disjoint (rbo_ext_step xs ys s p d st) = disjoint st"
    and "ext_term (rbo_ext_step xs ys s p d st) =
           Some (A_ext (rbo_ext_step xs ys s p d st) ! d * p ^ (d + 1))"
  using assms by (simp_all add: rbo_ext_step_def Let_def)

lemma overlap_incr_eq:
  assumes "x \<notin> P" "y \<notin> Q"
  shows "(if x = y then 1
          else (if x \<in> insert y Q then 1 else 0) + (if y \<in> insert x P then 1 else 0))
         = int ((if x \<in> Q then 1 else 0) + (if y \<in> P then 1 else 0) + (if x = y then 1 else 0))"
  using assms by auto

lemma card_take_distinct:
  assumes "distinct xs" "m \<le> length xs"
  shows "card (set (take m xs)) = m"
proof -
  have "card (set (take m xs)) = length (take m xs)"
    using assms(1) by (intro distinct_card distinct_take)
  with assms(2) show ?thesis by simp
qed

lemma set_take_Suc:
  assumes "m < length xs"
  shows "set (take (Suc m) xs) = insert (xs ! m) (set (take m xs))"
  by (simp only: take_Suc_conv_app_nth [OF assms] set_append list.set Un_insert_right Un_empty_right)

lemma rbo_ext_step_inv:
  assumes inv: "rbo_ext_inv xs ys p l (Suc j) st"
    and dist: "distinct xs" "distinct ys"
    and len: "Suc j < l" "l \<le> length xs" "l \<le> length ys" "Suc j < s"
  shows "rbo_ext_inv xs ys p l (Suc (Suc j)) (rbo_ext_step xs ys s p (Suc j) st)"
proof -
  let ?st = "rbo_ext_step xs ys s p (Suc j) st"
  note F = rbo_ext_step_lt [OF len(4), of xs ys p st]
  from inv have lX: "length (X st) = l" and lA: "length (A_ext st) = l"
    and lR: "length (rbo_arr st) = l"
    and Sr: "S_run st = set (take (Suc j) xs)" and Lr: "L_running st = set (take (Suc j) ys)"
    and Xj: "\<And>d. d < Suc j \<Longrightarrow> X st ! d = int (prefix_overlap xs ys d)"
    and Aj: "\<And>d. d < Suc j \<Longrightarrow> A_ext st ! d = agreement xs ys d"
    and Rj: "\<And>d. d < Suc j \<Longrightarrow> rbo_arr st ! d = (\<Sum>i\<le>d. (1 - p) * p ^ i * agreement xs ys i)"
    and D: "disjoint st = 0"
    by (simp_all add: rbo_ext_inv_def)
  from len have lx: "Suc j < length xs" and ly: "Suc j < length ys" by simp_all
  have nx: "xs ! Suc j \<notin> set (take (Suc j) xs)" by (rule nth_notin_take [OF dist(1) lx])
  have ny: "ys ! Suc j \<notin> set (take (Suc j) ys)" by (rule nth_notin_take [OF dist(2) ly])
  let ?tmp = "(if xs ! Suc j \<in> set (take (Suc j) ys) then 1 else 0)
      + (if ys ! Suc j \<in> set (take (Suc j) xs) then 1 else 0)
      + (if xs ! Suc j = ys ! Suc j then 1 else (0::nat))"
  have "X ?st ! Suc j = X st ! (Suc j - 1)
          + (if xs ! Suc j = ys ! Suc j then 1
             else (if xs ! Suc j \<in> insert (ys ! Suc j) (L_running st) then 1 else 0)
                + (if ys ! Suc j \<in> insert (xs ! Suc j) (S_run st) then 1 else 0))"
    unfolding F(1) using len lX by (intro nth_list_update_eq) simp
  also have "\<dots> = X st ! (Suc j - 1) + int ?tmp"
    unfolding Sr Lr overlap_incr_eq [OF nx ny] ..
  also have "\<dots> = int (prefix_overlap xs ys j) + int ?tmp"
    using Xj [of j] by simp
  also have "\<dots> = int (prefix_overlap xs ys (Suc j))"
    by (simp only: prefix_overlap_Suc [OF dist lx ly] of_nat_add)
  finally have Xnew: "X ?st ! Suc j = int (prefix_overlap xs ys (Suc j))" .
  have cS: "card (insert (xs ! Suc j) (S_run st)) = Suc (Suc j)"
    unfolding Sr set_take_Suc [OF lx, symmetric]
    using lx by (intro card_take_distinct [OF dist(1)]) simp
  have cL: "card (insert (ys ! Suc j) (L_running st)) = Suc (Suc j)"
    unfolding Lr set_take_Suc [OF ly, symmetric]
    using ly by (intro card_take_distinct [OF dist(2)]) simp
  have Anew: "A_ext ?st ! Suc j = agreement xs ys (Suc j)"
  proof -
    have r: "2 * a / real (Suc (Suc j) + Suc (Suc j)) = a / real (Suc j + 1)" for a :: real
      by (simp add: field_simps)
    have "A_ext ?st ! Suc j = 2 * real_of_int (X ?st ! Suc j)
            / real (card (insert (xs ! Suc j) (S_run st)) + card (insert (ys ! Suc j) (L_running st)))"
      unfolding F(2) using len lA by (intro nth_list_update_eq) simp
    also have "\<dots> = real (prefix_overlap xs ys (Suc j)) / real (Suc j + 1)"
      unfolding Xnew cS cL r by simp
    finally show ?thesis by (simp only: agreement_def)
  qed
  have Rnew: "rbo_arr ?st ! Suc j = (\<Sum>i\<le>Suc j. (1 - p) * p ^ i * agreement xs ys i)"
    using len lR by (simp add: F(3) Anew Rj)
  have Xold: "X ?st ! d = int (prefix_overlap xs ys d)" if "d < Suc j" for d
    using that by (simp add: F(1) Xj)
  have Aold: "A_ext ?st ! d = agreement xs ys d" if "d < Suc j" for d
    using that by (simp add: F(2) Aj)
  have Rold: "rbo_arr ?st ! d = (\<Sum>i\<le>d. (1 - p) * p ^ i * agreement xs ys i)" if "d < Suc j" for d
    using that by (simp add: F(3) Rj)
  have X_all: "\<forall>d<Suc (Suc j). X ?st ! d = int (prefix_overlap xs ys d)"
    using Xnew Xold by (auto simp: less_Suc_eq)
  have A_all: "\<forall>d<Suc (Suc j). A_ext ?st ! d = agreement xs ys d"
    using Anew Aold by (auto simp: less_Suc_eq)
  have R_all: "\<forall>d<Suc (Suc j). rbo_arr ?st ! d = (\<Sum>i\<le>d. (1 - p) * p ^ i * agreement xs ys i)"
    using Rnew Rold by (auto simp: less_Suc_eq)
  have S': "S_run ?st = set (take (Suc (Suc j)) xs)"
    by (simp only: F(4) Sr set_take_Suc [OF lx])
  have L': "L_running ?st = set (take (Suc (Suc j)) ys)"
    by (simp only: F(5) Lr set_take_Suc [OF ly])
  have lens: "length (X ?st) = l" "length (A_ext ?st) = l" "length (rbo_arr ?st) = l"
    by (simp_all add: F(1,2,3) lX lA lR)
  have D': "disjoint ?st = 0" by (simp add: F(6) D)
  have E': "ext_term ?st = (if Suc (Suc j) = 1 then None
                else Some (agreement xs ys (Suc (Suc j) - 1) * p ^ Suc (Suc j)))"
    by (simp add: F(7) Anew)
  from lens S' L' X_all A_all R_all D' E' show ?thesis
    unfolding rbo_ext_inv_def by blast
qed

lemma rbo_ext_fold_inv:
  assumes "rbo_ext_inv xs ys p l (Suc 0) st0"
    and "distinct xs" "distinct ys" "l \<le> length xs" "l \<le> length ys" "l \<le> s"
  shows "Suc j \<le> l \<Longrightarrow>
         rbo_ext_inv xs ys p l (Suc j) (fold (rbo_ext_step xs ys s p) [1..<Suc j] st0)"
proof (induction j)
  case 0
  with assms(1) show ?case by simp
next
  case (Suc j)
  then have "rbo_ext_inv xs ys p l (Suc j) (fold (rbo_ext_step xs ys s p) [1..<Suc j] st0)"
    by simp
  then have "rbo_ext_inv xs ys p l (Suc (Suc j))
               (rbo_ext_step xs ys s p (Suc j) (fold (rbo_ext_step xs ys s p) [1..<Suc j] st0))"
    using Suc.prems assms(2-) by (intro rbo_ext_step_inv) simp_all
  then show ?case by simp
qed

lemma prefix_overlap_0: "prefix_overlap (x # xs) (y # ys) 0 = (if x = y then 1 else 0)"
  by (simp add: prefix_overlap_def)

lemma rbo_ext_closed_equal_length:
  assumes init: "RankingSimilarity_init xs ys = Inr self"
    and eq: "length xs = length ys"
    and two: "2 \<le> length xs"
  shows "rbo_ext self p =
           Inr ((\<Sum>i<length xs. (1 - p) * p ^ i * agreement xs ys i)
                + agreement xs ys (length xs - 1) * p ^ length xs)"
proof -
  note I = init_Inr [OF init]
  define l where "l = length xs"
  from two eq obtain x xs' y ys' where xs: "xs = x # xs'" and ys: "ys = y # ys'"
    by (cases xs; cases ys) auto
  from two obtain j where j: "l = Suc (Suc j)"
    by (cases l; cases "l - 1") (auto simp: l_def)
  define st0 :: "'a rbo_ext_state" where "st0 =
     \<lparr>X = (replicate l 0)[0 := if x = y then 1 else 0],
      A_ext = (replicate l 0)[0 := real_of_int ((replicate l 0)[0 := if x = y then 1 else 0] ! 0)],
      rbo_arr = (replicate l 0)[0 := 1 * (1 - p) *
         (replicate l 0)[0 := real_of_int ((replicate l 0)[0 := if x = y then 1 else 0] ! 0)] ! 0],
      S_run = {x}, L_running = {y}, disjoint = 0, ext_term = None\<rparr>"
  have ly: "length ys = l" using eq by (simp add: l_def)
  have l': "l = Suc (length xs')" "length ys' = length xs'"
    using eq by (simp_all add: l_def xs ys)
  have arr: "rbo_ext_arrays self p = Inr (fold (rbo_ext_step xs ys l p) [1..<l] st0)"
    by (simp add: rbo_ext_arrays_def I(1,2) xs ys Let_def st0_def l' del: upt_Suc)
  have inv0: "rbo_ext_inv xs ys p l (Suc 0) st0"
    by (auto simp: rbo_ext_inv_def st0_def j xs ys prefix_overlap_0 agreement_0)
  have "rbo_ext_inv xs ys p l (Suc (Suc j)) (fold (rbo_ext_step xs ys l p) [1..<Suc (Suc j)] st0)"
    using inv0 I(5,6) eq j by (intro rbo_ext_fold_inv) (simp_all add: l_def)
  then have inv': "rbo_ext_inv xs ys p l l (fold (rbo_ext_step xs ys l p) [1..<l] st0)"
    by (simp only: j)
  define fin where "fin = fold (rbo_ext_step xs ys l p) [1..<l] st0"
  from inv' have inv: "rbo_ext_inv xs ys p l l fin" by (simp only: fin_def)
  from arr have arr': "rbo_ext_arrays self p = Inr fin" by (simp only: fin_def)
  from inv have lR: "length (rbo_arr fin) = l"
    and R: "rbo_arr fin ! Suc j = (\<Sum>i\<le>Suc j. (1 - p) * p ^ i * agreement xs ys i)"
    and D: "disjoint fin = 0"
    and E: "ext_term fin = Some (agreement xs ys (l - 1) * p ^ l)"
    by (simp_all add: rbo_ext_inv_def j)
  have lastR: "last (rbo_arr fin) = rbo_arr fin ! Suc j"
    using lR j by (simp add: last_conv_nth [OF length_greater_0_conv [THEN iffD1]])
  have sum: "(\<Sum>i<l. (1 - p) * p ^ i * agreement xs ys i)
               = (\<Sum>i\<le>Suc j. (1 - p) * p ^ i * agreement xs ys i)"
    by (simp only: j lessThan_Suc_atMost)
  show ?thesis
    unfolding rbo_ext_def arr' l_def [symmetric] sum
    by (simp add: E D lastR R)
qed

text \<open>
  For two duplicate-free lists of equal length at least 2 and \<open>0 < p < 1\<close>, the extrapolated
  measure is the fixed-depth measure at full depth with \<open>ext\<close> set.
\<close>

lemma rbo_ext_eq_rbo_equal_length:
  assumes init: "RankingSimilarity_init xs ys = Inr self"
    and eq: "length xs = length ys"
    and two: "2 \<le> length xs"
    and p: "0 < p" "p < 1"
  shows "rbo_ext self p = rbo self (Some (int (length xs))) p True"
proof -
  note I = init_Inr [OF init]
  have d: "rbo_depth self (Some (int (length xs))) = int (length xs)"
    by (simp add: rbo_depth_def I eq)
  have k: "0 < rbo_depth self (Some (int (length xs)))"
    using two by (auto simp: d)
  have pv: "p = 1 \<or> (0 < p \<and> p < 1)" using p by simp
  show ?thesis
    using rbo_closed [OF init pv k, of True] rbo_ext_closed_equal_length [OF init eq two, of p] p
    by (simp add: d)
qed

section \<open>The fixed-depth loop under rounding\<close>







text \<open>Without rounding the loop is the one of the exact reading.\<close>

lemma rbo_step_rnd_exact: "rbo_step_rnd (\<lambda>x. x) self p ws d st = rbo_step self p ws d st"
  by (simp add: rbo_step_rnd_def rbo_step_def)

lemma rbo_arrays_rnd_exact: "rbo_arrays_rnd (\<lambda>x. x) self k p = rbo_arrays self k p"
proof -
  have h: "rbo_step_rnd (\<lambda>x. x) self p = rbo_step self p"
    by (intro ext) (rule rbo_step_rnd_exact)
  show ?thesis
    unfolding rbo_arrays_rnd_def rbo_arrays_def rbo_weights_rnd_def rbo_weights_def h mult_1 ..
qed

subsection \<open>Rounding to binary64\<close>










section \<open>When the calls fail\<close>

lemma ext_term_step: "ext_term (rbo_ext_step xs ys s p d st) \<noteq> None"
  by (simp add: rbo_ext_step_def Let_def)

lemma ext_term_fold:
  "ds \<noteq> [] \<Longrightarrow> ext_term (fold (rbo_ext_step xs ys s p) ds st) \<noteq> None"
proof (induction ds arbitrary: st)
  case Nil
  then show ?case by simp
next
  case (Cons d ds)
  then show ?case by (cases "ds = []") (simp_all add: ext_term_step)
qed

lemma rbo_ext_returns_iff:
  "(\<exists>v. rbo_ext self p = Inr v) \<longleftrightarrow>
     S self \<noteq> [] \<and> T self \<noteq> [] \<and> 2 \<le> max (length (S self)) (length (T self))"
proof (cases "S self")
  case Nil
  then show ?thesis by (simp add: rbo_ext_def rbo_ext_arrays_def split: list.splits)
next
  case sa: (Cons s0 ss)
  show ?thesis
  proof (cases "T self")
    case Nil
    with sa show ?thesis by (simp add: rbo_ext_def rbo_ext_arrays_def)
  next
    case ta: (Cons t0 ts)
    show ?thesis
    proof (cases "ss = [] \<and> ts = []")
      case True
      with sa ta show ?thesis by (simp add: rbo_ext_def rbo_ext_arrays_def)
    next
      case False
      from False have ne: "length ts < length ss \<Longrightarrow> [1..<Suc (length ss)] \<noteq> []"
        and ne': "\<not> length ts < length ss \<Longrightarrow> [1..<Suc (length ts)] \<noteq> []"
        by (cases ss; cases ts; simp)+
      have "\<exists>st. rbo_ext_arrays self p = Inr st \<and> ext_term st \<noteq> None"
      proof (cases "length ts < length ss")
        case True
        from ext_term_fold [OF ne [OF True]] True show ?thesis
          by (auto simp add: rbo_ext_arrays_def sa ta Let_def simp del: upt_Suc)
      next
        case False
        from ext_term_fold [OF ne' [OF False]] False show ?thesis
          by (auto simp add: rbo_ext_arrays_def sa ta Let_def simp del: upt_Suc)
      qed
      then obtain st where st: "rbo_ext_arrays self p = Inr st" and et: "ext_term st \<noteq> None"
        by blast
      from False have "2 \<le> max (length (S self)) (length (T self))"
        by (cases ss; cases ts) (simp_all add: sa ta)
      with st et show ?thesis
        using sa ta by (auto simp: rbo_ext_def)
    qed
  qed
qed

lemma rbo_invalid_p_fails:
  assumes "p \<noteq> 1" "\<not> (0 < p \<and> p < 1)"
  shows "rbo self k p ext = Inl AssertionError"
  using assms by (auto simp: rbo_def rbo_arrays_def rbo_weights_def Let_def)

lemmas rbo_defs = rbo_def rbo_arrays_def rbo_depth_def rbo_weights_def rbo_step_def

lemmas rbo_ext_defs = rbo_ext_def rbo_ext_arrays_def rbo_ext_step_def

section \<open>The claims\<close>




text \<open>
  C5. For \<open>S = ['a','b','c','d','e']\<close> and \<open>T = ['e','d','c']\<close> the constructor succeeds, the
  loop of \<open>rbo(k=3, p=1.0, ext=False)\<close> ends with \<open>A = [0, 0, 1/3]\<close> and \<open>AO = [0, 0, 1/9]\<close>,
  and the call returns \<open>1/9\<close>.
\<close>

theorem rbo_reverse_prefix_example:
  "RankingSimilarity_init [''a'', ''b'', ''c'', ''d'', ''e''] [''e'', ''d'', ''c'']
     = Inr \<lparr>S = [''a'', ''b'', ''c'', ''d'', ''e''], T = [''e'', ''d'', ''c''], N_S = 5, N_T = 3\<rparr>
   \<and> rbo_arrays \<lparr>S = [''a'', ''b'', ''c'', ''d'', ''e''], T = [''e'', ''d'', ''c''], N_S = 5, N_T = 3\<rparr>
        (Some 3) 1
     = Inr \<lparr>A = [0, 0, 1 / 3], AO = [0, 0, 1 / 9],
            S_running = {''a'', ''b'', ''c''}, T_running = {''e'', ''d'', ''c''}\<rparr>
   \<and> rbo \<lparr>S = [''a'', ''b'', ''c'', ''d'', ''e''], T = [''e'', ''d'', ''c''], N_S = 5, N_T = 3\<rparr>
        (Some 3) 1 False
     = Inr (1 / 9)"
  by (simp add: RankingSimilarity_init_def rbo_defs upt_rec numeral_3_eq_3 insert_commute)



text \<open>
  C6. On two duplicate-free lists that share no element, with a valid \<open>p\<close> and a positive
  effective depth, \<open>rbo\<close> with \<open>ext=False\<close> returns 0, and every entry of \<open>A\<close> and of \<open>AO\<close>
  is 0 when the loop ends.
\<close>

theorem rbo_disjoint_zero:
  assumes "RankingSimilarity_init xs ys = Inr self"
    and "set xs \<inter> set ys = {}"
    and "p = 1 \<or> (0 < p \<and> p < 1)"
    and "0 < rbo_depth self k"
  shows "rbo self k p False = Inr 0 \<and>
         (\<exists>st. rbo_arrays self k p = Inr st \<and>
               A st = replicate (nat (rbo_depth self k)) 0 \<and>
               AO st = replicate (nat (rbo_depth self k)) 0)"
proof -
  note z = agreement_disjoint [OF assms(2)]
  have r: "rbo self k p False = Inr 0"
    using rbo_closed [OF assms(1,3,4), of False] by (simp add: z)
  from rbo_arrays_closed [OF assms(1,3,4)] obtain st where st: "rbo_arrays self k p = Inr st"
    and lA: "length (A st) = nat (rbo_depth self k)"
    and lAO: "length (AO st) = nat (rbo_depth self k)"
    and Ad: "\<And>d. d < nat (rbo_depth self k) \<Longrightarrow> A st ! d = 0"
    and AOd: "\<And>d. d < nat (rbo_depth self k) \<Longrightarrow> AO st ! d = 0"
    by (auto simp: z)
  have "A st = replicate (nat (rbo_depth self k)) 0"
    by (rule nth_equalityI) (simp_all add: lA Ad)
  moreover have "AO st = replicate (nat (rbo_depth self k)) 0"
    by (rule nth_equalityI) (simp_all add: lAO AOd)
  ultimately show ?thesis using r st by simp
qed

theorem rbo_disjoint_zero_witness:
  "RankingSimilarity_init [1, 2 :: int] [3, 4, 5]
     = Inr \<lparr>S = [1, 2], T = [3, 4, 5], N_S = 2, N_T = 3\<rparr>
   \<and> set [1, 2 :: int] \<inter> set [3, 4, 5] = {}
   \<and> ((1/2 :: real) = 1 \<or> (0 < (1/2 :: real) \<and> (1/2 :: real) < 1))
   \<and> 0 < rbo_depth \<lparr>S = [1, 2 :: int], T = [3, 4, 5], N_S = 2, N_T = 3\<rparr> None
   \<and> rbo \<lparr>S = [1, 2 :: int], T = [3, 4, 5], N_S = 2, N_T = 3\<rparr> None (1/2) False = Inr 0
   \<and> (\<exists>st. rbo_arrays \<lparr>S = [1, 2 :: int], T = [3, 4, 5], N_S = 2, N_T = 3\<rparr> None (1/2) = Inr st
         \<and> A st = [0, 0] \<and> AO st = [0, 0])"
proof -
  have i: "RankingSimilarity_init [1, 2 :: int] [3, 4, 5]
             = Inr \<lparr>S = [1, 2], T = [3, 4, 5], N_S = 2, N_T = 3\<rparr>"
    by (simp add: RankingSimilarity_init_def)
  have d: "set [1, 2 :: int] \<inter> set [3, 4, 5] = {}" by simp
  have p: "(1/2 :: real) = 1 \<or> (0 < (1/2 :: real) \<and> (1/2 :: real) < 1)" by simp
  have k: "0 < rbo_depth \<lparr>S = [1, 2 :: int], T = [3, 4, 5], N_S = 2, N_T = 3\<rparr> None"
    by (simp add: rbo_depth_def)
  have n: "nat (rbo_depth \<lparr>S = [1, 2 :: int], T = [3, 4, 5], N_S = 2, N_T = 3\<rparr> None) = Suc (Suc 0)"
    by (simp add: rbo_depth_def)
  from rbo_disjoint_zero [OF i d p k] show ?thesis
    using i d p k unfolding n by simp
qed

text \<open>
  C1, as amended. On two identical duplicate-free lists, with a positive effective depth,
  \<open>rbo\<close> with \<open>p = 1\<close> returns exactly 1, whatever \<open>ext\<close> is. (Every intermediate value
  of that run is 1 or a quotient \<open>(d + 1) / (d + 1)\<close> of small integers, so no rounding
  occurs.) Nothing is stated for \<open>0 < p < 1\<close>.
\<close>

theorem rbo_identical_lists:
  assumes "RankingSimilarity_init xs xs = Inr self"
    and "0 < rbo_depth self k"
  shows "rbo self k 1 ext = Inr 1"
proof -
  define n where "n = nat (rbo_depth self k)"
  note I = init_Inr [OF assms(1)]
  from rbo_depth_le(1) [of self k] have nx: "n \<le> length xs" by (simp add: n_def I)
  from assms(2) have n0: "0 < n" by (simp add: n_def)
  have a1: "agreement xs xs i = 1" if "i < n" for i
    using that nx I(5) by (intro agreement_same) simp_all
  have s1: "(\<Sum>i<n. agreement xs xs i) = real n"
    using a1 by simp
  show ?thesis
    using rbo_closed [OF assms(1) _ assms(2), of 1 ext] n0
    unfolding n_def [symmetric] by (simp add: s1)
qed

theorem rbo_identical_lists_witness:
  "RankingSimilarity_init [1, 2, 3 :: int] [1, 2, 3]
     = Inr \<lparr>S = [1, 2, 3], T = [1, 2, 3], N_S = 3, N_T = 3\<rparr>
   \<and> 0 < rbo_depth \<lparr>S = [1, 2, 3 :: int], T = [1, 2, 3], N_S = 3, N_T = 3\<rparr> (Some 2)
   \<and> rbo \<lparr>S = [1, 2, 3 :: int], T = [1, 2, 3], N_S = 3, N_T = 3\<rparr> (Some 2) 1 True = Inr 1
   \<and> rbo \<lparr>S = [1, 2, 3 :: int], T = [1, 2, 3], N_S = 3, N_T = 3\<rparr> (Some 2) 1 False = Inr 1"
proof -
  have i: "RankingSimilarity_init [1, 2, 3 :: int] [1, 2, 3]
             = Inr \<lparr>S = [1, 2, 3], T = [1, 2, 3], N_S = 3, N_T = 3\<rparr>"
    by (simp add: RankingSimilarity_init_def)
  have k: "0 < rbo_depth \<lparr>S = [1, 2, 3 :: int], T = [1, 2, 3], N_S = 3, N_T = 3\<rparr> (Some 2)"
    by (simp add: rbo_depth_def)
  from rbo_identical_lists [OF i k, of True] rbo_identical_lists [OF i k, of False]
  show ?thesis
    using i k by simp
qed

text \<open>
  C1, as stated, fails: on \<open>S = T = ['a']\<close> the call \<open>rbo(k=1, p=0.5, ext=False)\<close> returns
  \<open>0.5\<close>, not 1.
\<close>

theorem rbo_identical_lists_counterexample:
  "RankingSimilarity_init [''a''] [''a''] = Inr \<lparr>S = [''a''], T = [''a''], N_S = 1, N_T = 1\<rparr>
   \<and> rbo \<lparr>S = [''a''], T = [''a''], N_S = 1, N_T = 1\<rparr> (Some 1) (1/2) False = Inr (1/2)
   \<and> rbo \<lparr>S = [''a''], T = [''a''], N_S = 1, N_T = 1\<rparr> (Some 1) (1/2) False \<noteq> Inr 1"
  by (simp add: RankingSimilarity_init_def rbo_defs)

text \<open>
  C8, as amended. A call of \<open>rbo\<close> whose effective depth is zero (in particular one on an
  empty list, or with \<open>k = 0\<close>) fails and produces no result. The depth is never
  validated: the failure is the \<open>IndexError\<close> of the first read or write at index 0, or
  the failed assertion on \<open>p\<close> when \<open>p\<close> is invalid as well, which is raised first.
\<close>

theorem rbo_depth_zero_fails:
  assumes "RankingSimilarity_init xs ys = Inr self"
    and "rbo_depth self k = 0 \<or> xs = [] \<or> ys = [] \<or> k = Some 0"
  shows "rbo self k p ext = Inl (if p = 1 \<or> (0 < p \<and> p < 1) then IndexError else AssertionError)"
proof -
  note I = init_Inr [OF assms(1)]
  from assms(2) have "rbo_depth self k \<le> 0"
    using rbo_depth_le [of self k] by (auto simp: I rbo_depth_def)
  then have n: "nat (rbo_depth self k) = 0" by simp
  show ?thesis
    by (auto simp: rbo_def rbo_arrays_def n rbo_weights_def split: list.splits)
qed

theorem rbo_depth_zero_fails_witness:
  "RankingSimilarity_init ([] :: int list) [1] = Inr \<lparr>S = [], T = [1], N_S = 0, N_T = 1\<rparr>
   \<and> (rbo_depth \<lparr>S = ([] :: int list), T = [1], N_S = 0, N_T = 1\<rparr> None = 0
        \<or> ([] :: int list) = [] \<or> [1 :: int] = [] \<or> (None :: int option) = Some 0)
   \<and> rbo \<lparr>S = ([] :: int list), T = [1], N_S = 0, N_T = 1\<rparr> None 1 False = Inl IndexError
   \<and> rbo \<lparr>S = [1 :: int], T = [1], N_S = 1, N_T = 1\<rparr> (Some 0) 3 True = Inl AssertionError"
proof -
  have i: "RankingSimilarity_init ([] :: int list) [1] = Inr \<lparr>S = [], T = [1], N_S = 0, N_T = 1\<rparr>"
    by (simp add: RankingSimilarity_init_def)
  have h: "rbo_depth \<lparr>S = ([] :: int list), T = [1], N_S = 0, N_T = 1\<rparr> None = 0
        \<or> ([] :: int list) = [] \<or> [1 :: int] = [] \<or> (None :: int option) = Some 0"
    by simp
  have i2: "RankingSimilarity_init [1 :: int] [1] = Inr \<lparr>S = [1], T = [1], N_S = 1, N_T = 1\<rparr>"
    by (simp add: RankingSimilarity_init_def)
  have h2: "rbo_depth \<lparr>S = [1 :: int], T = [1], N_S = 1, N_T = 1\<rparr> (Some 0) = 0
        \<or> [1 :: int] = [] \<or> [1 :: int] = [] \<or> Some (0 :: int) = Some 0"
    by simp
  from rbo_depth_zero_fails [OF i h, of 1 False] rbo_depth_zero_fails [OF i2 h2, of 3 True]
  show ?thesis using i h by simp
qed

text \<open>
  C8, as stated, fails: on \<open>S = T = ['a']\<close> the call \<open>rbo(k=0, p=1.0)\<close> raises \<open>IndexError\<close>
  at the write \<open>A[0] = ...\<close>, which is not an invalid-parameter error.
\<close>

theorem rbo_depth_zero_fails_counterexample:
  "RankingSimilarity_init [''a''] [''a''] = Inr \<lparr>S = [''a''], T = [''a''], N_S = 1, N_T = 1\<rparr>
   \<and> rbo_depth \<lparr>S = [''a''], T = [''a''], N_S = 1, N_T = 1\<rparr> (Some 0) = 0
   \<and> rbo \<lparr>S = [''a''], T = [''a''], N_S = 1, N_T = 1\<rparr> (Some 0) 1 False = Inl IndexError
   \<and> \<not> InvalidParameterError IndexError"
  by (simp add: RankingSimilarity_init_def rbo_defs InvalidParameterError_def)

text \<open>
  C4. For two duplicate-free lists, exchanging them changes neither the outcome of \<open>rbo\<close>
  (for any depth, any \<open>p\<close> and any \<open>ext\<close>) nor the outcome of \<open>rbo_ext\<close>: the same value,
  or the same error.
\<close>

theorem rbo_symmetric:
  assumes "RankingSimilarity_init xs ys = Inr a"
    and "RankingSimilarity_init ys xs = Inr b"
  shows "rbo a k p ext = rbo b k p ext \<and> rbo_ext a p = rbo_ext b p"
proof -
  note Ia = init_Inr [OF assms(1)] and Ib = init_Inr [OF assms(2)]
  have "rbo b k p ext = rbo a k p ext"
    by (rule rbo_swap) (simp_all add: Ia Ib)
  moreover have "rbo_ext b p = rbo_ext a p"
    by (rule rbo_ext_swap) (simp_all add: Ia Ib)
  ultimately show ?thesis by simp
qed

theorem rbo_symmetric_witness:
  "RankingSimilarity_init [1, 2, 3, 4 :: int] [3, 1, 5]
     = Inr \<lparr>S = [1, 2, 3, 4], T = [3, 1, 5], N_S = 4, N_T = 3\<rparr>
   \<and> RankingSimilarity_init [3, 1, 5 :: int] [1, 2, 3, 4]
     = Inr \<lparr>S = [3, 1, 5], T = [1, 2, 3, 4], N_S = 3, N_T = 4\<rparr>
   \<and> rbo \<lparr>S = [1, 2, 3, 4 :: int], T = [3, 1, 5], N_S = 4, N_T = 3\<rparr> (Some 2) (1/2) True
     = rbo \<lparr>S = [3, 1, 5 :: int], T = [1, 2, 3, 4], N_S = 3, N_T = 4\<rparr> (Some 2) (1/2) True
   \<and> rbo_ext \<lparr>S = [1, 2, 3, 4 :: int], T = [3, 1, 5], N_S = 4, N_T = 3\<rparr> (1/2)
     = rbo_ext \<lparr>S = [3, 1, 5 :: int], T = [1, 2, 3, 4], N_S = 3, N_T = 4\<rparr> (1/2)"
proof -
  have i: "RankingSimilarity_init [1, 2, 3, 4 :: int] [3, 1, 5]
             = Inr \<lparr>S = [1, 2, 3, 4], T = [3, 1, 5], N_S = 4, N_T = 3\<rparr>"
    by (simp add: RankingSimilarity_init_def)
  have j: "RankingSimilarity_init [3, 1, 5 :: int] [1, 2, 3, 4]
             = Inr \<lparr>S = [3, 1, 5], T = [1, 2, 3, 4], N_S = 3, N_T = 4\<rparr>"
    by (simp add: RankingSimilarity_init_def)
  from rbo_symmetric [OF i j, of "Some 2" "1/2" True] show ?thesis
    using i j by simp
qed

text \<open>
  C10. When both lists have length 1, \<open>rbo_ext\<close> fails with the unbound-name error and
  returns no score: the loop body, the only place that assigns \<open>ext_term\<close>, never runs.
  More generally \<open>rbo_ext\<close> returns a score exactly when both lists are non-empty and the
  longer one has at least two items.
\<close>

theorem rbo_ext_needs_two_items:
  assumes "RankingSimilarity_init xs ys = Inr self"
  shows "(length xs = 1 \<and> length ys = 1 \<longrightarrow> rbo_ext self p = Inl UnboundLocalError) \<and>
         ((\<exists>v. rbo_ext self p = Inr v) \<longleftrightarrow>
            xs \<noteq> [] \<and> ys \<noteq> [] \<and> 2 \<le> max (length xs) (length ys))"
proof -
  note I = init_Inr [OF assms]
  have "rbo_ext self p = Inl UnboundLocalError" if "length xs = 1" "length ys = 1"
  proof -
    from that obtain x y where "xs = [x]" "ys = [y]"
      by (cases xs; cases ys) auto
    then show ?thesis by (simp add: rbo_ext_def rbo_ext_arrays_def I)
  qed
  then show ?thesis
    using rbo_ext_returns_iff [of self p] by (simp add: I)
qed

theorem rbo_ext_needs_two_items_witness:
  "RankingSimilarity_init [''a''] [''b''] = Inr \<lparr>S = [''a''], T = [''b''], N_S = 1, N_T = 1\<rparr>
   \<and> length [''a''] = 1 \<and> length [''b''] = 1
   \<and> rbo_ext \<lparr>S = [''a''], T = [''b''], N_S = 1, N_T = 1\<rparr> (1/2) = Inl UnboundLocalError
   \<and> RankingSimilarity_init [''a'', ''b''] [''b''] = Inr \<lparr>S = [''a'', ''b''], T = [''b''], N_S = 2, N_T = 1\<rparr>
   \<and> (\<exists>v. rbo_ext \<lparr>S = [''a'', ''b''], T = [''b''], N_S = 2, N_T = 1\<rparr> (1/2) = Inr v)"
proof -
  have i: "RankingSimilarity_init [''a''] [''b''] = Inr \<lparr>S = [''a''], T = [''b''], N_S = 1, N_T = 1\<rparr>"
    by (simp add: RankingSimilarity_init_def)
  have j: "RankingSimilarity_init [''a'', ''b''] [''b''] = Inr \<lparr>S = [''a'', ''b''], T = [''b''], N_S = 2, N_T = 1\<rparr>"
    by (simp add: RankingSimilarity_init_def)
  from rbo_ext_needs_two_items [OF i, of "1/2"] rbo_ext_needs_two_items [OF j, of "1/2"]
  show ?thesis using i j by simp
qed

text \<open>
  C2, at the input where the code departs from it: on \<open>S = T = ['a']\<close>, two lists of equal
  length 1, \<open>rbo_ext(p=0.5)\<close> raises the unbound-name error while
  \<open>rbo(k=1, p=0.5, ext=True)\<close> returns 1.
\<close>

theorem rbo_ext_single_item_diverges:
  "RankingSimilarity_init [''a''] [''a''] = Inr \<lparr>S = [''a''], T = [''a''], N_S = 1, N_T = 1\<rparr>
   \<and> rbo_ext \<lparr>S = [''a''], T = [''a''], N_S = 1, N_T = 1\<rparr> (1/2) = Inl UnboundLocalError
   \<and> rbo \<lparr>S = [''a''], T = [''a''], N_S = 1, N_T = 1\<rparr> (Some 1) (1/2) True = Inr 1"
  by (simp add: RankingSimilarity_init_def rbo_defs rbo_ext_defs)

text \<open>
  C3, at the input where the code departs from it: on \<open>S = ['a','b']\<close>, \<open>T = ['b','a']\<close>
  the call \<open>rbo_ext(p=2)\<close> performs no check of \<open>p\<close> and returns the score 2, while
  \<open>rbo\<close> with the same \<open>p\<close> fails on its assertion.
\<close>

theorem rbo_ext_accepts_invalid_p:
  "RankingSimilarity_init [''a'', ''b''] [''b'', ''a'']
     = Inr \<lparr>S = [''a'', ''b''], T = [''b'', ''a''], N_S = 2, N_T = 2\<rparr>
   \<and> rbo_ext \<lparr>S = [''a'', ''b''], T = [''b'', ''a''], N_S = 2, N_T = 2\<rparr> 2 = Inr 2
   \<and> rbo \<lparr>S = [''a'', ''b''], T = [''b'', ''a''], N_S = 2, N_T = 2\<rparr> None 2 True = Inl AssertionError"
  by (simp add: RankingSimilarity_init_def rbo_defs rbo_ext_defs upt_rec)

end
